theory Spec2Isabelle
  imports Main "HOL-Library.Multiset"
begin

section \<open>The GraphQL changelog builder (script/graphql/build-changelog.js)\<close>

text \<open>
  The script takes the list of changes that the schema diff of
  \<^verbatim>\<open>@graphql-inspector/core\<close> reports, keeps the ones worth a changelog line,
  sorts them into the general schema bucket and one bucket per schema preview, and
  formats the result as a changelog entry. Parsing the schemas and computing the diff
  are the library's work: the model starts from the diff's result, the list
  \<^verbatim>\<open>changes\<close>.

  JavaScript strings are modelled as \<^typ>\<open>string\<close>, one \<^typ>\<open>char\<close> per UTF-16 code
  unit, which covers the strings whose code units are below 256 (ASCII and Latin-1).
\<close>

subsection \<open>Data model\<close>

text \<open>
  \<^verbatim>\<open>ChangeType\<close> is the enumeration of the diff library; its members are pairwise
  different strings. The members the script names are constructors here, and
  \<open>OtherChangeType\<close> stands for any other value a change's \<^verbatim>\<open>type\<close> may hold.
\<close>

datatype ChangeType =
    FieldArgumentDefaultChanged
  | FieldArgumentTypeChanged
  | EnumValueRemoved
  | EnumValueAdded
  | FieldRemoved
  | FieldAdded
  | FieldTypeChanged
  | FieldArgumentAdded
  | FieldArgumentRemoved
  | ObjectTypeInterfaceAdded
  | ObjectTypeInterfaceRemoved
  | InputFieldRemoved
  | InputFieldAdded
  | InputFieldDefaultValueChanged
  | InputFieldTypeChanged
  | TypeRemoved
  | TypeAdded
  | TypeKindChanged
  | UnionMemberRemoved
  | UnionMemberAdded
  | SchemaQueryTypeChanged
  | SchemaMutationTypeChanged
  | SchemaSubscriptionTypeChanged
  | FieldArgumentDescriptionChanged
  | DirectiveRemoved
  | DirectiveAdded
  | DirectiveDescriptionChanged
  | DirectiveLocationAdded
  | DirectiveLocationRemoved
  | DirectiveArgumentAdded
  | DirectiveArgumentRemoved
  | DirectiveArgumentDescriptionChanged
  | DirectiveArgumentDefaultValueChanged
  | DirectiveArgumentTypeChanged
  | EnumValueDescriptionChanged
  | EnumValueDeprecationReasonChanged
  | EnumValueDeprecationReasonAdded
  | EnumValueDeprecationReasonRemoved
  | FieldDescriptionChanged
  | FieldDescriptionAdded
  | FieldDescriptionRemoved
  | FieldDeprecationAdded
  | FieldDeprecationRemoved
  | FieldDeprecationReasonChanged
  | FieldDeprecationReasonAdded
  | FieldDeprecationReasonRemoved
  | InputFieldDescriptionAdded
  | InputFieldDescriptionRemoved
  | InputFieldDescriptionChanged
  | TypeDescriptionChanged
  | TypeDescriptionRemoved
  | TypeDescriptionAdded
  | OtherChangeType string

text \<open>
  A change record of the diff: \<^verbatim>\<open>{ type, path, message }\<close>. The library gives
  every record a type and a message; the path is optional, and the records about a
  changed root type of the schema (\<^verbatim>\<open>SchemaQueryTypeChanged\<close>,
  \<^verbatim>\<open>SchemaMutationTypeChanged\<close>, \<^verbatim>\<open>SchemaSubscriptionTypeChanged\<close>) come
  without one. \<open>None\<close> is a record whose \<^verbatim>\<open>path\<close> is \<^verbatim>\<open>undefined\<close>.
\<close>

record change =
  type :: ChangeType
  path :: "string option"
  message :: string

text \<open>
  Three kinds of object carry a \<^verbatim>\<open>title\<close>: a preview definition
  \<^verbatim>\<open>{ title, toggled_on }\<close>, a preview bucket \<^verbatim>\<open>{ title, changes }\<close> of
  \<^verbatim>\<open>segmentPreviewChanges\<close>, and a section \<^verbatim>\<open>{ title, changes }\<close> of the
  changelog entry.
\<close>

record 'a titled =
  title :: 'a

record preview = "string titled" +
  toggled_on :: "string list"

record ('a, 'c) titled_changes = "'a titled" +
  changes :: "'c list"

text \<open>
  What the script throws: the string about a change type in neither list
  (line 64), and the \<^verbatim>\<open>TypeError\<close> of the runtime for a property read
  on \<^verbatim>\<open>undefined\<close>.
\<close>

datatype error = UnknownChangeType ChangeType | TypeError

subsection \<open>The classifier (lines 57 to 66)\<close>

definition CHANGES_TO_REPORT :: "ChangeType list" where
  "CHANGES_TO_REPORT =
    [FieldArgumentDefaultChanged, FieldArgumentTypeChanged, EnumValueRemoved,
     EnumValueAdded, FieldRemoved, FieldAdded, FieldTypeChanged, FieldArgumentAdded,
     FieldArgumentRemoved, ObjectTypeInterfaceAdded, ObjectTypeInterfaceRemoved,
     InputFieldRemoved, InputFieldAdded, InputFieldDefaultValueChanged,
     InputFieldTypeChanged, TypeRemoved, TypeAdded, TypeKindChanged, UnionMemberRemoved,
     UnionMemberAdded, SchemaQueryTypeChanged, SchemaMutationTypeChanged,
     SchemaSubscriptionTypeChanged]"

definition CHANGES_TO_IGNORE :: "ChangeType list" where
  "CHANGES_TO_IGNORE =
    [FieldArgumentDescriptionChanged, DirectiveRemoved, DirectiveAdded,
     DirectiveDescriptionChanged, DirectiveLocationAdded, DirectiveLocationRemoved,
     DirectiveArgumentAdded, DirectiveArgumentRemoved,
     DirectiveArgumentDescriptionChanged, DirectiveArgumentDefaultValueChanged,
     DirectiveArgumentTypeChanged, EnumValueDescriptionChanged,
     EnumValueDeprecationReasonChanged, EnumValueDeprecationReasonAdded,
     EnumValueDeprecationReasonRemoved, FieldDescriptionChanged, FieldDescriptionAdded,
     FieldDescriptionRemoved, FieldDeprecationAdded, FieldDeprecationRemoved,
     FieldDeprecationReasonChanged, FieldDeprecationReasonAdded,
     FieldDeprecationReasonRemoved, InputFieldDescriptionAdded,
     InputFieldDescriptionRemoved, InputFieldDescriptionChanged, TypeDescriptionChanged,
     TypeDescriptionRemoved, TypeDescriptionAdded]"

text \<open>
  The \<^verbatim>\<open>forEach\<close> over \<^verbatim>\<open>changes\<close>: the first argument is the array
  \<^verbatim>\<open>changesToReport\<close> built so far, \<^verbatim>\<open>push\<close> appends to it, and the
  \<^verbatim>\<open>throw\<close> ends the loop.
\<close>

fun classify :: "change list \<Rightarrow> change list \<Rightarrow> error + change list" where
  "classify acc [] = Inr acc"
| "classify acc (c # cs) =
     (if type c \<in> set CHANGES_TO_REPORT then classify (acc @ [c]) cs
      else if type c \<in> set CHANGES_TO_IGNORE then classify acc cs
      else Inl (UnknownChangeType (type c)))"

definition changesToReport :: "change list \<Rightarrow> error + change list" where
  "changesToReport chs = classify [] chs"

subsection \<open>Plain objects used as dictionaries\<close>

text \<open>
  \<^verbatim>\<open>pathToPreview\<close> and \<^verbatim>\<open>changesByPreview\<close> are object literals
  \<^verbatim>\<open>{}\<close>, read and written with \<^verbatim>\<open>obj[key]\<close>. Such an object inherits from
  \<^verbatim>\<open>Object.prototype\<close>: a read of a key that is no own property of the object
  yields the member of \<^verbatim>\<open>Object.prototype\<close> of that name when there is one, and
  \<^verbatim>\<open>undefined\<close> otherwise. The members are the same in every version of the
  runtime (Node.js).
\<close>

definition Object_prototype_keys :: "string list" where
  "Object_prototype_keys =
    [''constructor'', ''__defineGetter__'', ''__defineSetter__'', ''hasOwnProperty'',
     ''__lookupGetter__'', ''__lookupSetter__'', ''isPrototypeOf'',
     ''propertyIsEnumerable'', ''toString'', ''valueOf'', ''__proto__'',
     ''toLocaleString'']"

text \<open>
  The values the variable \<^verbatim>\<open>previewTitle\<close> can hold: \<^verbatim>\<open>null\<close> (its initial
  value), \<^verbatim>\<open>undefined\<close>, a string (a preview's title), or the member of
  \<^verbatim>\<open>Object.prototype\<close> stored under a name (a function, or for
  \<^verbatim>\<open>__proto__\<close> the prototype object itself).
\<close>

datatype jsval = Null | Undefined | Str string | ObjectPrototypeMember string

text \<open>
  Truthiness, as \<^verbatim>\<open>!previewTitle\<close> and \<^verbatim>\<open>if (previewTitle)\<close> test it: the
  empty string is falsy as \<^verbatim>\<open>null\<close> and \<^verbatim>\<open>undefined\<close> are; functions and
  objects are truthy.
\<close>

fun truthy :: "jsval \<Rightarrow> bool" where
  "truthy Null = False"
| "truthy Undefined = False"
| "truthy (Str s) = (s \<noteq> [])"
| "truthy (ObjectPrototypeMember k) = True"

text \<open>
  The property key that \<^verbatim>\<open>changesByPreview[previewTitle]\<close> uses is the value
  converted to a string. A built-in function prints as
  \<^verbatim>\<open>function NAME() { [native code] }\<close>, where the name of
  \<^verbatim>\<open>Object.prototype.constructor\<close> is \<^verbatim>\<open>Object\<close> and every other member is
  named as its key; the prototype object prints as \<^verbatim>\<open>[object Object]\<close>.
\<close>

fun ToPropertyKey :: "jsval \<Rightarrow> string" where
  "ToPropertyKey Null = ''null''"
| "ToPropertyKey Undefined = ''undefined''"
| "ToPropertyKey (Str s) = s"
| "ToPropertyKey (ObjectPrototypeMember k) =
     (if k = ''__proto__'' then ''[object Object]''
      else ''function '' @ (if k = ''constructor'' then ''Object'' else k)
             @ ''() { [native code] }'')"

subsection \<open>The path-to-preview index (lines 147 to 152)\<close>

text \<open>
  The own properties of \<^verbatim>\<open>pathToPreview\<close> are a map from paths to titles.
  \<^verbatim>\<open>pathToPreview[path] = preview.title\<close> creates or overwrites the own property
  \<^verbatim>\<open>path\<close>, except for the key \<^verbatim>\<open>__proto__\<close>: that assignment calls the
  setter of \<^verbatim>\<open>Object.prototype\<close>, which ignores a value that is a string.
\<close>

definition set_pathToPreview :: "(string \<rightharpoonup> string) \<Rightarrow> string \<Rightarrow> string \<Rightarrow> (string \<rightharpoonup> string)" where
  "set_pathToPreview obj key v = (if key = ''__proto__'' then obj else obj(key \<mapsto> v))"

definition get_pathToPreview :: "(string \<rightharpoonup> string) \<Rightarrow> string \<Rightarrow> jsval" where
  "get_pathToPreview obj key =
     (case obj key of
        Some v \<Rightarrow> Str v
      | None \<Rightarrow> if key \<in> set Object_prototype_keys then ObjectPrototypeMember key
                else Undefined)"

text \<open>
  The inner loop \<^verbatim>\<open>preview.toggled_on.forEach\<close> and the outer loop
  \<^verbatim>\<open>previews.forEach\<close>, which starts from the empty object.
\<close>

definition toggle_paths :: "preview \<Rightarrow> (string \<rightharpoonup> string) \<Rightarrow> (string \<rightharpoonup> string)" where
  "toggle_paths preview obj =
     fold (\<lambda>path obj'. set_pathToPreview obj' path (title preview)) (toggled_on preview) obj"

definition pathToPreview :: "preview list \<Rightarrow> (string \<rightharpoonup> string)" where
  "pathToPreview previews = fold toggle_paths previews Map.empty"

subsection \<open>Walking a change's path upwards (lines 159 to 169)\<close>

text \<open>
  \<^verbatim>\<open>path.split(".")\<close> cuts the string at every dot; the result is never empty
  (the empty string gives one empty part), so the second case of the
  \<^verbatim>\<open>case\<close> below is the only one that occurs. \<^verbatim>\<open>pathParts.join(".")\<close> puts the
  dots back.
\<close>

fun js_split :: "char \<Rightarrow> string \<Rightarrow> string list" where
  "js_split sep [] = [[]]"
| "js_split sep (c # cs) =
     (if c = sep then [] # js_split sep cs
      else (case js_split sep cs of
              [] \<Rightarrow> [[c]]
            | p # ps \<Rightarrow> (c # p) # ps))"

fun js_join :: "char \<Rightarrow> string list \<Rightarrow> string" where
  "js_join sep [] = []"
| "js_join sep [p] = p"
| "js_join sep (p # q # ps) = p @ sep # js_join sep (q # ps)"

text \<open>
  The \<^verbatim>\<open>while\<close> loop: \<^verbatim>\<open>pathParts.pop()\<close> removes the last part, so the loop
  runs at most once per part.
\<close>

function findPreviewTitle :: "(string \<rightharpoonup> string) \<Rightarrow> string list \<Rightarrow> jsval \<Rightarrow> jsval" where
  "findPreviewTitle obj pathParts previewTitle =
     (if length pathParts > 0 \<and> \<not> truthy previewTitle
      then findPreviewTitle obj (butlast pathParts)
             (get_pathToPreview obj (js_join (CHR ''.'') pathParts))
      else previewTitle)"
  by pat_completeness auto
termination
  by (relation "measure (\<lambda>(obj, pathParts, previewTitle). length pathParts)") auto

declare findPreviewTitle.simps [simp del]

text \<open>
  The walk goes from the full path upwards through each ancestor prefix, removing the
  last dotted segment each time. These two functions list those prefixes in that
  order, the full path first; they serve the lemmas about the walk and are no part of
  the script.
\<close>

function ancestors :: "string list \<Rightarrow> string list list" where
  "ancestors parts = (if parts = [] then [] else parts # ancestors (butlast parts))"
  by pat_completeness auto
termination
  by (relation "measure length") auto

declare ancestors.simps [simp del]

definition ancestor_paths :: "string \<Rightarrow> string list" where
  "ancestor_paths p = map (js_join (CHR ''.'')) (ancestors (js_split (CHR ''.'') p))"

subsection \<open>Sorting the changes into buckets (lines 153 to 180)\<close>

text \<open>
  \<^verbatim>\<open>changesByPreview\<close> is a plain object too. Its own properties are kept as a
  list of keys with their buckets, in the order of creation, because
  \<^verbatim>\<open>createChangelogEntry\<close> enumerates them. The function below is the body of
  \<^verbatim>\<open>changesToReport.forEach\<close> on the state
  \<^verbatim>\<open>(schemaChanges, changesByPreview)\<close>; \<open>previewTitle_of\<close> is the value of
  \<^verbatim>\<open>previewTitle\<close> behind the \<^verbatim>\<open>while\<close> loop for a path that is a string.

  For a change without a path, \<^verbatim>\<open>change.path.split(".")\<close> reads a property of
  \<^verbatim>\<open>undefined\<close> and throws a \<^verbatim>\<open>TypeError\<close>.

  When \<^verbatim>\<open>changesByPreview[previewTitle]\<close> is no own property but names a member of
  \<^verbatim>\<open>Object.prototype\<close>, the read yields that member, which is truthy, so no bucket
  is created; the member has no property \<^verbatim>\<open>changes\<close>, and
  \<^verbatim>\<open>previewChanges.changes.push\<close> throws a \<^verbatim>\<open>TypeError\<close>.
\<close>

type_synonym bucket = "(jsval, change) titled_changes"

definition previewTitle_of :: "(string \<rightharpoonup> string) \<Rightarrow> string \<Rightarrow> jsval" where
  "previewTitle_of obj p = findPreviewTitle obj (js_split (CHR ''.'') p) Null"

fun segment_change ::
  "(string \<rightharpoonup> string) \<Rightarrow> change list \<times> (string \<times> bucket) list \<Rightarrow> change
     \<Rightarrow> error + change list \<times> (string \<times> bucket) list" where
  "segment_change obj (schemaChanges, changesByPreview) c =
     (case path c of
        None \<Rightarrow> Inl TypeError
      | Some p \<Rightarrow>
         (let previewTitle = previewTitle_of obj p in
          if truthy previewTitle then
            (let key = ToPropertyKey previewTitle in
             case map_of changesByPreview key of
               Some previewChanges \<Rightarrow>
                 Inr (schemaChanges,
                      map (\<lambda>(k, b). if k = key then (k, b\<lparr>changes := changes b @ [c]\<rparr>)
                                     else (k, b))
                          changesByPreview)
             | None \<Rightarrow>
                 if key \<in> set Object_prototype_keys then Inl TypeError
                 else Inr (schemaChanges,
                           changesByPreview @ [(key, \<lparr>title = previewTitle, changes = [c]\<rparr>)]))
          else Inr (schemaChanges @ [c], changesByPreview)))"

fun segment_changes ::
  "(string \<rightharpoonup> string) \<Rightarrow> change list \<times> (string \<times> bucket) list \<Rightarrow> change list
     \<Rightarrow> error + change list \<times> (string \<times> bucket) list" where
  "segment_changes obj st [] = Inr st"
| "segment_changes obj st (c # cs) =
     (case segment_change obj st c of
        Inl e \<Rightarrow> Inl e
      | Inr st' \<Rightarrow> segment_changes obj st' cs)"

record segmented =
  schemaChangesToReport :: "change list"
  previewChangesToReport :: "(string \<times> bucket) list"

definition segmentPreviewChanges :: "change list \<Rightarrow> preview list \<Rightarrow> error + segmented" where
  "segmentPreviewChanges chs previews =
     (case segment_changes (pathToPreview previews) ([], []) chs of
        Inl e \<Rightarrow> Inl e
      | Inr (schemaChanges, changesByPreview) \<Rightarrow>
          Inr \<lparr>schemaChangesToReport = schemaChanges,
               previewChangesToReport = changesByPreview\<rparr>)"

text \<open>
  Three notions for the proofs about the loop, no part of the script. The title
  value of a change is the preview title of its path, and \<^verbatim>\<open>undefined\<close> for a
  change without a path (the loop never gets that far for such a change). The state
  \<open>(schemaChanges, changesByPreview)\<close> is well sorted when the keys of the buckets
  are distinct, the general bucket holds only changes without a truthy title value,
  and the bucket under a key holds only changes whose title value converts to that
  key. A change is placed when it is in the bucket that its title value names, or in
  the general bucket when its title value is not truthy.
\<close>

definition title_value :: "(string \<rightharpoonup> string) \<Rightarrow> change \<Rightarrow> jsval" where
  "title_value obj c = (case path c of None \<Rightarrow> Undefined | Some p \<Rightarrow> previewTitle_of obj p)"

definition well_sorted ::
  "(string \<rightharpoonup> string) \<Rightarrow> change list \<times> (string \<times> bucket) list \<Rightarrow> bool" where
  "well_sorted obj st =
     (distinct (map fst (snd st))
      \<and> (\<forall>c\<in>set (fst st). \<not> truthy (title_value obj c))
      \<and> (\<forall>k b c. (k, b) \<in> set (snd st) \<and> c \<in> set (changes b) \<longrightarrow>
            truthy (title_value obj c) \<and> ToPropertyKey (title_value obj c) = k))"

definition placed ::
  "(string \<rightharpoonup> string) \<Rightarrow> change list \<times> (string \<times> bucket) list \<Rightarrow> change \<Rightarrow> bool" where
  "placed obj st c =
     (if truthy (title_value obj c)
      then (\<exists>b. map_of (snd st) (ToPropertyKey (title_value obj c)) = Some b
                \<and> c \<in> set (changes b))
      else c \<in> set (fst st))"

subsection \<open>Titles, anchors and messages (lines 113 to 142)\<close>

definition endsWith :: "string \<Rightarrow> string \<Rightarrow> bool" where
  "endsWith s t = (length t \<le> length s \<and> drop (length s - length t) s = t)"

definition cleanPreviewTitle :: "string \<Rightarrow> string" where
  "cleanPreviewTitle t =
     (if t = ''UpdateRefsPreview'' then ''Update refs preview''
      else if t = ''MergeInfoPreview'' then ''Merge info preview''
      else if \<not> endsWith t ''preview'' then t @ '' preview''
      else t)"

text \<open>
  \<^verbatim>\<open>toLowerCase\<close> on code units below 256: the letters A to Z, and the capital
  letters of Latin-1 (U+00C0 to U+00DE without the multiplication sign U+00D7), move
  up by 32; every other code unit of that range is its own lower case.
\<close>

definition toLowerCase_char :: "char \<Rightarrow> char" where
  "toLowerCase_char c =
     (let n = (of_char c :: nat) in
      if (65 \<le> n \<and> n \<le> 90) \<or> (192 \<le> n \<and> n \<le> 222 \<and> n \<noteq> 215)
      then char_of (n + 32) else c)"

definition toLowerCase :: "string \<Rightarrow> string" where
  "toLowerCase s = map toLowerCase_char s"

text \<open>\<^verbatim>\<open>\w\<close> in a regular expression without the unicode flag: \<^verbatim>\<open>[A-Za-z0-9_]\<close>.\<close>

definition word_char :: "char \<Rightarrow> bool" where
  "word_char c =
     (let n = (of_char c :: nat) in
      (65 \<le> n \<and> n \<le> 90) \<or> (97 \<le> n \<and> n \<le> 122) \<or> (48 \<le> n \<and> n \<le> 57) \<or> n = 95)"

text \<open>\<^verbatim>\<open>.replace(/ /g, '-')\<close> and \<^verbatim>\<open>.replace(/[^\w-]/g, '')\<close>.\<close>

definition replace_spaces :: "string \<Rightarrow> string" where
  "replace_spaces s = map (\<lambda>c. if c = CHR '' '' then CHR ''-'' else c) s"

definition remove_non_word :: "string \<Rightarrow> string" where
  "remove_non_word s = filter (\<lambda>c. word_char c \<or> c = CHR ''-'') s"

definition previewAnchor :: "string \<Rightarrow> string" where
  "previewAnchor previewTitle = remove_non_word (replace_spaces (toLowerCase previewTitle))"

text \<open>
  The character class \<^verbatim>\<open>[a-zA-Z\. :!]\<close> of the message pattern
  \<^verbatim>\<open>/'([a-zA-Z\. :!]+)'/g\<close>.
\<close>

definition quotable :: "char \<Rightarrow> bool" where
  "quotable c =
     (let n = (of_char c :: nat) in
      (97 \<le> n \<and> n \<le> 122) \<or> (65 \<le> n \<and> n \<le> 90)
      \<or> c = CHR ''.'' \<or> c = CHR '' '' \<or> c = CHR '':'' \<or> c = CHR ''!'')"

text \<open>
  Whether the pattern matches at the start of the text \<open>CHR 0x27 # cs\<close>, given
  \<open>cs\<close>: the class excludes the quote, so the greedy \<^verbatim>\<open>+\<close> takes the longest
  run of class characters, and no shorter run can be followed by a quote. The match
  needs that run to be non-empty and the next character to be a quote.
\<close>

definition quoted_here :: "string \<Rightarrow> bool" where
  "quoted_here cs =
     (takeWhile quotable cs \<noteq> [] \<and>
      (case dropWhile quotable cs of [] \<Rightarrow> False | d # ds \<Rightarrow> d = CHR 0x27))"

text \<open>
  \<^verbatim>\<open>message.replace(/'([a-zA-Z\. :!]+)'/g, '`$1`')\<close>: the text is scanned from
  the left; a match is replaced by its group between backticks and the scan goes on
  behind the closing quote; where there is no match the character is copied.
\<close>

function replace_quoted :: "string \<Rightarrow> string" where
  "replace_quoted [] = []"
| "replace_quoted (c # cs) =
     (if c = CHR 0x27 \<and> quoted_here cs
      then CHR 0x60 # takeWhile quotable cs
             @ CHR 0x60 # replace_quoted (tl (dropWhile quotable cs))
      else c # replace_quoted cs)"
  by pat_completeness auto
termination
proof (relation "measure length")
  fix c :: char and cs :: string
  have "length (tl (dropWhile quotable cs)) \<le> length (dropWhile quotable cs)"
    by simp
  also have "\<dots> \<le> length cs"
    by (rule length_dropWhile_le)
  finally show "(tl (dropWhile quotable cs), c # cs) \<in> measure length"
    by simp
qed simp_all

definition cleanMessagesFromChanges :: "change list \<Rightarrow> string list" where
  "cleanMessagesFromChanges chs = map (\<lambda>c. replace_quoted (message c)) chs"

text \<open>
  A span is a single-quoted piece of text that contains only letters, spaces, periods,
  colons or exclamation marks, and at least one of them. This predicate says that a
  text has a span somewhere; it serves the lemmas about the scan and is no part of the
  script.
\<close>

definition has_quoted_span :: "string \<Rightarrow> bool" where
  "has_quoted_span m =
     (\<exists>pre inner post. m = pre @ CHR 0x27 # inner @ CHR 0x27 # post
        \<and> inner \<noteq> [] \<and> (\<forall>c\<in>set inner. quotable c))"

subsection \<open>The changelog entry (lines 50 to 109)\<close>

text \<open>
  \<^verbatim>\<open>for (const previewTitle in previewChangesToReport)\<close> enumerates the own
  keys of the object: first the keys that are array indices (the decimal numerals
  without leading zero up to \<open>2^32 - 2\<close>) in ascending order, then all other
  keys in the order of their creation.
\<close>

definition decimal :: "string \<Rightarrow> nat" where
  "decimal s = foldl (\<lambda>n c. 10 * n + (of_char c - 48)) 0 s"

definition array_index :: "string \<Rightarrow> nat option" where
  "array_index k =
     (if k \<noteq> [] \<and> (\<forall>c \<in> set k. 48 \<le> (of_char c :: nat) \<and> (of_char c :: nat) \<le> 57)
         \<and> (hd k \<noteq> CHR ''0'' \<or> length k = 1) \<and> decimal k < 4294967295
      then Some (decimal k) else None)"

definition for_in :: "(string \<times> 'b) list \<Rightarrow> (string \<times> 'b) list" where
  "for_in props =
     sort_key (\<lambda>(k, b). case array_index k of Some n \<Rightarrow> n | None \<Rightarrow> 0)
              (filter (\<lambda>(k, b). array_index k \<noteq> None) props)
     @ filter (\<lambda>(k, b). array_index k = None) props"

text \<open>
  \<^verbatim>\<open>previewChangesToReport.length > 0\<close>: \<^verbatim>\<open>previewChangesToReport\<close> is the object
  \<^verbatim>\<open>changesByPreview\<close>, not an array. Its property \<^verbatim>\<open>length\<close> is the bucket of
  a preview whose key is \<^verbatim>\<open>length\<close> when there is one, and \<^verbatim>\<open>undefined\<close>
  otherwise (\<^verbatim>\<open>Object.prototype\<close> has no such member). Compared with a number, both
  convert to \<^verbatim>\<open>NaN\<close>, and every comparison with \<^verbatim>\<open>NaN\<close> is false.
\<close>

definition length_gt_0 :: "(string \<times> bucket) list \<Rightarrow> bool" where
  "length_gt_0 changesByPreview =
     (case map_of changesByPreview ''length'' of
        None \<Rightarrow> False
      | Some previewChanges \<Rightarrow> False)"

type_synonym changelog_section = "(string, string) titled_changes"

record changelogEntry =
  schemaChanges :: "changelog_section list"
  previewChanges :: "changelog_section list"
  upcomingChanges :: "changelog_section list"

definition entryTitle :: "string \<Rightarrow> string" where
  "entryTitle previewTitle =
     (let cleanTitle = cleanPreviewTitle previewTitle in
      ''The ['' @ cleanTitle @ ''](/graphql/overview/schema-previews#''
        @ previewAnchor cleanTitle @ '') includes these changes:'')"

text \<open>
  \<^verbatim>\<open>createChangelogEntry\<close>, from the result \<^verbatim>\<open>changes\<close> of the diff on. The
  function is \<^verbatim>\<open>async\<close>: \<open>Inr\<close> is the value its promise resolves to
  (\<open>None\<close> for \<^verbatim>\<open>null\<close>), \<open>Inl\<close> the value it rejects with.
\<close>

definition createChangelogEntry :: "change list \<Rightarrow> preview list \<Rightarrow> error + changelogEntry option" where
  "createChangelogEntry chs previews =
     (case changesToReport chs of
        Inl e \<Rightarrow> Inl e
      | Inr reported \<Rightarrow>
          (case segmentPreviewChanges reported previews of
             Inl e \<Rightarrow> Inl e
           | Inr seg \<Rightarrow>
               if length (schemaChangesToReport seg) > 0
                  \<or> length_gt_0 (previewChangesToReport seg)
               then Inr (Some
                 \<lparr>schemaChanges =
                    [\<lparr>title = ''The GraphQL schema includes these changes:'',
                      changes = cleanMessagesFromChanges (schemaChangesToReport seg)\<rparr>],
                  previewChanges =
                    map (\<lambda>(previewTitle, previewChanges).
                           \<lparr>title = entryTitle previewTitle,
                            changes = cleanMessagesFromChanges (changes previewChanges)\<rparr>)
                        (for_in (previewChangesToReport seg)),
                  upcomingChanges = []\<rparr>)
               else Inr None))"

section \<open>Properties\<close>

subsection \<open>The classifier\<close>

lemma classify_known:
  "\<forall>c\<in>set cs. type c \<in> set CHANGES_TO_REPORT \<or> type c \<in> set CHANGES_TO_IGNORE \<Longrightarrow>
   classify acc cs = Inr (acc @ filter (\<lambda>c. type c \<in> set CHANGES_TO_REPORT) cs)"
  by (induction cs arbitrary: acc) auto

lemma classify_unknown:
  "\<exists>c\<in>set cs. type c \<notin> set CHANGES_TO_REPORT \<and> type c \<notin> set CHANGES_TO_IGNORE \<Longrightarrow>
   \<exists>c\<in>set cs. type c \<notin> set CHANGES_TO_REPORT \<and> type c \<notin> set CHANGES_TO_IGNORE
      \<and> classify acc cs = Inl (UnknownChangeType (type c))"
  by (induction cs arbitrary: acc) auto

lemma classify_Inl:
  "classify acc cs = Inl e \<Longrightarrow>
   \<exists>c\<in>set cs. e = UnknownChangeType (type c)
      \<and> type c \<notin> set CHANGES_TO_REPORT \<and> type c \<notin> set CHANGES_TO_IGNORE"
  by (induction cs arbitrary: acc) (auto split: if_splits)

text \<open>
  Claim C2. When every change of the input has a type in \<open>CHANGES_TO_REPORT\<close> or in
  \<open>CHANGES_TO_IGNORE\<close>, the classifier returns exactly the changes whose type is in
  \<open>CHANGES_TO_REPORT\<close>, in their original order and unmodified.
\<close>

theorem classifier_keeps_reportable:
  assumes "\<forall>c\<in>set chs. type c \<in> set CHANGES_TO_REPORT \<or> type c \<in> set CHANGES_TO_IGNORE"
  shows "changesToReport chs = Inr (filter (\<lambda>c. type c \<in> set CHANGES_TO_REPORT) chs)"
  using classify_known [OF assms, of "[]"] by (simp add: changesToReport_def)

theorem classifier_keeps_reportable_witness:
  "changesToReport
     [\<lparr>type = FieldAdded, path = Some ''Query.bar'', message = ''Field 'bar' was added''\<rparr>,
      \<lparr>type = FieldDescriptionChanged, path = Some ''Query.bar'', message = ''changed''\<rparr>,
      \<lparr>type = TypeRemoved, path = Some ''Foo'', message = ''Type 'Foo' was removed''\<rparr>]
   = Inr [\<lparr>type = FieldAdded, path = Some ''Query.bar'', message = ''Field 'bar' was added''\<rparr>,
          \<lparr>type = TypeRemoved, path = Some ''Foo'', message = ''Type 'Foo' was removed''\<rparr>]"
  using classifier_keeps_reportable
    [of "[\<lparr>type = FieldAdded, path = Some ''Query.bar'', message = ''Field 'bar' was added''\<rparr>,
      \<lparr>type = FieldDescriptionChanged, path = Some ''Query.bar'', message = ''changed''\<rparr>,
      \<lparr>type = TypeRemoved, path = Some ''Foo'', message = ''Type 'Foo' was removed''\<rparr>]"]
  by (simp add: CHANGES_TO_REPORT_def CHANGES_TO_IGNORE_def)

subsection \<open>Preview titles and anchors\<close>

lemma endsWith_iff: "endsWith s t \<longleftrightarrow> (\<exists>pre. s = pre @ t)"
proof
  assume "endsWith s t"
  then have "s = take (length s - length t) s @ t"
    by (metis append_take_drop_id endsWith_def)
  then show "\<exists>pre. s = pre @ t" ..
next
  assume "\<exists>pre. s = pre @ t"
  then show "endsWith s t" by (auto simp: endsWith_def)
qed

text \<open>
  Claim C7. \<open>cleanPreviewTitle\<close> renames the two literal titles; any other title gets
  the suffix \<open>'' preview''\<close> when it does not end in the lower-case text
  \<open>''preview''\<close>, and is returned as it is when it does.
\<close>

theorem cleanPreviewTitle_cases:
  "cleanPreviewTitle ''UpdateRefsPreview'' = ''Update refs preview''
   \<and> cleanPreviewTitle ''MergeInfoPreview'' = ''Merge info preview''
   \<and> (t \<noteq> ''UpdateRefsPreview'' \<and> t \<noteq> ''MergeInfoPreview'' \<and> \<not> (\<exists>pre. t = pre @ ''preview'')
        \<longrightarrow> cleanPreviewTitle t = t @ '' preview'')
   \<and> (t \<noteq> ''UpdateRefsPreview'' \<and> t \<noteq> ''MergeInfoPreview'' \<and> (\<exists>pre. t = pre @ ''preview'')
        \<longrightarrow> cleanPreviewTitle t = t)"
  unfolding endsWith_iff [symmetric] by (simp add: cleanPreviewTitle_def)

theorem cleanPreviewTitle_cases_witness:
  "cleanPreviewTitle ''FooPreview'' = ''FooPreview preview''
   \<and> cleanPreviewTitle ''Foo preview'' = ''Foo preview''"
proof -
  have a: "\<not> (\<exists>pre. ''FooPreview'' = pre @ ''preview'')"
    unfolding endsWith_iff [symmetric] by (simp add: endsWith_def)
  have b: "\<exists>pre. ''Foo preview'' = pre @ ''preview''"
    by (rule exI [of _ "''Foo ''"]) simp
  from a b cleanPreviewTitle_cases [of "''FooPreview''"]
    cleanPreviewTitle_cases [of "''Foo preview''"]
  show ?thesis by simp
qed

text \<open>
  Claim C8. \<open>previewAnchor\<close> lowers the case of the title, then replaces every space
  by a hyphen, then removes every character that is neither a word character nor a
  hyphen; the title \<open>''Update refs preview''\<close> gives \<open>''update-refs-preview''\<close>.
\<close>

theorem previewAnchor_steps:
  "previewAnchor s =
     filter (\<lambda>c. word_char c \<or> c = CHR ''-'')
       (map (\<lambda>c. if c = CHR '' '' then CHR ''-'' else c) (map toLowerCase_char s))
   \<and> previewAnchor ''Update refs preview'' = ''update-refs-preview''"
proof
  show "previewAnchor s =
     filter (\<lambda>c. word_char c \<or> c = CHR ''-'')
       (map (\<lambda>c. if c = CHR '' '' then CHR ''-'' else c) (map toLowerCase_char s))"
    by (simp add: previewAnchor_def remove_non_word_def replace_spaces_def toLowerCase_def)
  show "previewAnchor ''Update refs preview'' = ''update-refs-preview''"
    by (simp add: previewAnchor_def remove_non_word_def replace_spaces_def toLowerCase_def
      toLowerCase_char_def word_char_def char_of_eq_iff)
qed

subsection \<open>Message cleanup\<close>

text \<open>
  What the scan does: the leftmost span is replaced, the text before it is kept and
  the scan goes on behind its closing quote; a message is returned unchanged exactly
  when it has no span. A quote that closes one span cannot open the next.
\<close>

lemma not_quotable_quote: "\<not> quotable (CHR 0x27)"
  by (simp add: quotable_def)

lemma quoted_here_iff:
  "quoted_here cs \<longleftrightarrow>
   (\<exists>inner post. cs = inner @ CHR 0x27 # post \<and> inner \<noteq> [] \<and> (\<forall>c\<in>set inner. quotable c))"
proof
  assume q: "quoted_here cs"
  then obtain ds where d: "dropWhile quotable cs = CHR 0x27 # ds"
    by (auto simp: quoted_here_def split: list.splits)
  have "cs = takeWhile quotable cs @ CHR 0x27 # ds"
    using takeWhile_dropWhile_id [of quotable cs] d by simp
  moreover have "takeWhile quotable cs \<noteq> []"
    using q by (simp add: quoted_here_def)
  moreover have "\<forall>c\<in>set (takeWhile quotable cs). quotable c"
    by (auto dest: set_takeWhileD)
  ultimately show "\<exists>inner post. cs = inner @ CHR 0x27 # post \<and> inner \<noteq> []
      \<and> (\<forall>c\<in>set inner. quotable c)"
    by blast
next
  assume "\<exists>inner post. cs = inner @ CHR 0x27 # post \<and> inner \<noteq> [] \<and> (\<forall>c\<in>set inner. quotable c)"
  then obtain inner post where cs: "cs = inner @ CHR 0x27 # post"
    and ne: "inner \<noteq> []" and al: "\<forall>c\<in>set inner. quotable c"
    by blast
  from al have "takeWhile quotable cs = inner" "dropWhile quotable cs = CHR 0x27 # post"
    by (simp_all add: cs not_quotable_quote)
  with ne show "quoted_here cs"
    by (simp add: quoted_here_def)
qed

lemma replace_quoted_match:
  assumes "inner \<noteq> []" "\<forall>c\<in>set inner. quotable c"
  shows "replace_quoted (CHR 0x27 # inner @ CHR 0x27 # post)
         = CHR 0x60 # inner @ CHR 0x60 # replace_quoted post"
proof -
  have t: "takeWhile quotable (inner @ CHR 0x27 # post) = inner"
    and d: "dropWhile quotable (inner @ CHR 0x27 # post) = CHR 0x27 # post"
    using assms by (simp_all add: not_quotable_quote)
  have "quoted_here (inner @ CHR 0x27 # post)"
    using assms by (auto simp: quoted_here_iff)
  then show ?thesis
    by (simp add: t d)
qed

lemma has_quoted_span_Cons:
  "has_quoted_span (c # cs) \<longleftrightarrow> (c = CHR 0x27 \<and> quoted_here cs) \<or> has_quoted_span cs"
proof
  assume "has_quoted_span (c # cs)"
  then obtain pre inner post where m: "c # cs = pre @ CHR 0x27 # inner @ CHR 0x27 # post"
    and ne: "inner \<noteq> []" and al: "\<forall>c\<in>set inner. quotable c"
    by (auto simp: has_quoted_span_def)
  show "(c = CHR 0x27 \<and> quoted_here cs) \<or> has_quoted_span cs"
  proof (cases pre)
    case Nil
    with m ne al show ?thesis by (auto simp: quoted_here_iff)
  next
    case (Cons p pre')
    with m ne al show ?thesis unfolding has_quoted_span_def by auto
  qed
next
  assume "(c = CHR 0x27 \<and> quoted_here cs) \<or> has_quoted_span cs"
  then show "has_quoted_span (c # cs)"
  proof
    assume "c = CHR 0x27 \<and> quoted_here cs"
    then obtain inner post where "c # cs = [] @ CHR 0x27 # inner @ CHR 0x27 # post"
      "inner \<noteq> []" "\<forall>c\<in>set inner. quotable c"
      by (auto simp: quoted_here_iff)
    then show ?thesis unfolding has_quoted_span_def by blast
  next
    assume "has_quoted_span cs"
    then obtain pre inner post where "c # cs = (c # pre) @ CHR 0x27 # inner @ CHR 0x27 # post"
      "inner \<noteq> []" "\<forall>c\<in>set inner. quotable c"
      by (auto simp: has_quoted_span_def)
    then show ?thesis unfolding has_quoted_span_def by blast
  qed
qed

lemma has_quoted_span_Nil: "\<not> has_quoted_span []"
  by (simp add: has_quoted_span_def)

lemma replace_quoted_unchanged_iff: "replace_quoted m = m \<longleftrightarrow> \<not> has_quoted_span m"
  by (induction m rule: replace_quoted.induct)
     (auto simp: has_quoted_span_Cons has_quoted_span_Nil)

lemma quoted_here_in_prefix:
  assumes "quoted_here (pre @ CHR 0x27 # rest)"
  shows "has_quoted_span (CHR 0x27 # pre @ [CHR 0x27])"
proof -
  from assms obtain inner post where e: "pre @ CHR 0x27 # rest = inner @ CHR 0x27 # post"
    and ne: "inner \<noteq> []" and al: "\<forall>c\<in>set inner. quotable c"
    by (auto simp: quoted_here_iff)
  from al have nq: "CHR 0x27 \<notin> set inner"
    using not_quotable_quote by blast
  from e nq obtain us where "pre = inner @ us"
    by (auto simp: append_eq_append_conv2 Cons_eq_append_conv)
  then have "CHR 0x27 # pre @ [CHR 0x27] = [] @ CHR 0x27 # inner @ CHR 0x27 # tl (us @ [CHR 0x27])"
    using e nq by (cases us) auto
  with ne al show ?thesis unfolding has_quoted_span_def by blast
qed

lemma replace_quoted_leftmost:
  assumes "\<not> has_quoted_span (pre @ [CHR 0x27])" "inner \<noteq> []" "\<forall>c\<in>set inner. quotable c"
  shows "replace_quoted (pre @ CHR 0x27 # inner @ CHR 0x27 # post)
         = pre @ CHR 0x60 # inner @ CHR 0x60 # replace_quoted post"
  using assms(1)
proof (induction pre)
  case Nil
  show ?case using replace_quoted_match [OF assms(2,3)] by simp
next
  case (Cons c pre)
  from Cons.prems have a: "\<not> has_quoted_span (pre @ [CHR 0x27])"
    by (simp add: has_quoted_span_Cons)
  have "\<not> (c = CHR 0x27 \<and> quoted_here (pre @ CHR 0x27 # inner @ CHR 0x27 # post))"
    using Cons.prems quoted_here_in_prefix by auto
  then have "replace_quoted ((c # pre) @ CHR 0x27 # inner @ CHR 0x27 # post)
      = c # replace_quoted (pre @ CHR 0x27 # inner @ CHR 0x27 # post)"
    by auto
  with Cons.IH [OF a] show ?case by simp
qed

lemma replace_quoted_example1:
  "replace_quoted ''The field 'name' was removed.'' = ''The field `name` was removed.''"
  by (simp add: quoted_here_def quotable_def)

lemma replace_quoted_example2:
  "replace_quoted ''The field 'my_field' was removed.'' = ''The field 'my_field' was removed.''"
  by (simp add: quoted_here_def quotable_def)

text \<open>
  Claim C6. Message cleanup should replace every single-quoted span of letters,
  spaces, periods, colons and exclamation marks by the same text between backticks
  and leave every other part of the message unchanged; the comment in the script
  speaks of the quotes around GraphQL names. The script does not on the message of an
  added enum value whose name has an underscore: the scan finds no match at the quote
  that opens \<open>FOO_BAR\<close>, takes the quote that closes it as the opening quote of the
  span \<open>' was added to enum '\<close>, and replaces that; the name \<open>MyEnum\<close> keeps one
  of its quotes and gets no backticks, and the text between the two names is changed.
\<close>

theorem adjacent_names_are_misquoted:
  "replace_quoted (''Enum value 'FOO_BAR' was added to enum 'MyEnum'' @ [CHR 0x27])
     = ''Enum value 'FOO_BAR` was added to enum `MyEnum'' @ [CHR 0x27]
   \<and> replace_quoted (''Enum value 'FOO_BAR' was added to enum 'MyEnum'' @ [CHR 0x27])
     \<noteq> ''Enum value 'FOO_BAR' was added to enum `MyEnum`''
   \<and> cleanMessagesFromChanges
       [\<lparr>type = EnumValueAdded, path = Some ''MyEnum.FOO_BAR'',
         message = ''Enum value 'FOO_BAR' was added to enum 'MyEnum'' @ [CHR 0x27]\<rparr>]
     = [''Enum value 'FOO_BAR` was added to enum `MyEnum'' @ [CHR 0x27]]"
  by (simp add: cleanMessagesFromChanges_def quoted_here_def quotable_def)

subsection \<open>Unfolding the loops\<close>

lemma findPreviewTitle_stop:
  "pathParts = [] \<or> truthy previewTitle \<Longrightarrow>
   findPreviewTitle obj pathParts previewTitle = previewTitle"
  by (subst findPreviewTitle.simps) auto

lemma findPreviewTitle_step:
  "pathParts \<noteq> [] \<Longrightarrow> \<not> truthy previewTitle \<Longrightarrow>
   findPreviewTitle obj pathParts previewTitle
   = findPreviewTitle obj (butlast pathParts)
       (get_pathToPreview obj (js_join (CHR ''.'') pathParts))"
  by (subst findPreviewTitle.simps) auto

lemma ancestors_Nil: "ancestors [] = []"
  by (subst ancestors.simps) simp

lemma ancestors_nonempty: "parts \<noteq> [] \<Longrightarrow> ancestors parts = parts # ancestors (butlast parts)"
  by (subst ancestors.simps) simp

lemma ancestor_paths_example:
  "ancestor_paths ''Query.foo.bar'' = [''Query.foo.bar'', ''Query.foo'', ''Query'']"
  by (simp add: ancestor_paths_def ancestors_Nil ancestors_nonempty)

subsection \<open>The path-to-preview index\<close>

lemma fold_set_pathToPreview:
  "fold (\<lambda>path obj'. set_pathToPreview obj' path t) paths obj k
   = (if k \<in> set paths \<and> k \<noteq> ''__proto__'' then Some t else obj k)"
  by (induction paths arbitrary: obj) (auto simp: set_pathToPreview_def)

lemma toggle_paths_apply:
  "toggle_paths p obj k
   = (if k \<in> set (toggled_on p) \<and> k \<noteq> ''__proto__'' then Some (title p) else obj k)"
  by (simp add: toggle_paths_def fold_set_pathToPreview)

lemma fold_toggle_paths_other:
  "\<forall>q\<in>set previews. k \<notin> set (toggled_on q) \<Longrightarrow> fold toggle_paths previews obj k = obj k"
  by (induction previews arbitrary: obj) (auto simp: toggle_paths_apply)

lemma fold_toggle_paths_proto: "fold toggle_paths previews obj ''__proto__'' = obj ''__proto__''"
  by (induction previews arbitrary: obj) (auto simp: toggle_paths_apply)

lemma fold_toggle_paths_last:
  assumes "k \<in> set (toggled_on p)" "\<forall>q\<in>set later. k \<notin> set (toggled_on q)" "k \<noteq> ''__proto__''"
  shows "fold toggle_paths (before @ p # later) obj k = Some (title p)"
  using assms by (simp add: fold_toggle_paths_other toggle_paths_apply)

lemma fold_toggle_paths_Some:
  "fold toggle_paths previews obj k = Some t \<Longrightarrow>
   obj k = Some t \<or> (\<exists>p\<in>set previews. t = title p \<and> k \<in> set (toggled_on p) \<and> k \<noteq> ''__proto__'')"
  by (induction previews arbitrary: obj) (fastforce simp: toggle_paths_apply split: if_splits)+

lemma fold_toggle_paths_dom:
  "fold toggle_paths previews obj k \<noteq> None \<longleftrightarrow>
   obj k \<noteq> None \<or> (k \<noteq> ''__proto__'' \<and> (\<exists>p\<in>set previews. k \<in> set (toggled_on p)))"
  by (induction previews arbitrary: obj) (auto simp: toggle_paths_apply)

lemma pathToPreview_Some:
  "pathToPreview previews k = Some t \<Longrightarrow>
   \<exists>p\<in>set previews. t = title p \<and> k \<in> set (toggled_on p) \<and> k \<noteq> ''__proto__''"
  using fold_toggle_paths_Some [of previews Map.empty k t] by (simp add: pathToPreview_def)

lemma pathToPreview_dom:
  "pathToPreview previews k \<noteq> None \<longleftrightarrow>
   k \<noteq> ''__proto__'' \<and> (\<exists>p\<in>set previews. k \<in> set (toggled_on p))"
  using fold_toggle_paths_dom [of previews Map.empty k] by (simp add: pathToPreview_def)

subsection \<open>The walk up the path\<close>

lemma findPreviewTitle_hit:
  "\<not> truthy pt \<Longrightarrow>
   find truthy (map (\<lambda>a. get_pathToPreview obj (js_join (CHR ''.'') a)) (ancestors parts)) = Some v
   \<Longrightarrow> findPreviewTitle obj parts pt = v"
proof (induction obj parts pt rule: findPreviewTitle.induct)
  case (1 obj pathParts previewTitle)
  show ?case
  proof (cases "pathParts = []")
    case True
    with "1.prems" show ?thesis by (simp add: ancestors_Nil)
  next
    case False
    let ?g = "get_pathToPreview obj (js_join (CHR ''.'') pathParts)"
    show ?thesis
    proof (cases "truthy ?g")
      case True
      with False "1.prems" show ?thesis
        by (simp add: ancestors_nonempty findPreviewTitle_step findPreviewTitle_stop)
    next
      case f: False
      with False "1.prems" "1.IH" show ?thesis
        by (simp add: ancestors_nonempty findPreviewTitle_step)
    qed
  qed
qed

lemma findPreviewTitle_miss:
  "\<not> truthy pt \<Longrightarrow>
   find truthy (map (\<lambda>a. get_pathToPreview obj (js_join (CHR ''.'') a)) (ancestors parts)) = None
   \<Longrightarrow> \<not> truthy (findPreviewTitle obj parts pt)"
proof (induction obj parts pt rule: findPreviewTitle.induct)
  case (1 obj pathParts previewTitle)
  show ?case
  proof (cases "pathParts = []")
    case True
    with "1.prems" show ?thesis by (simp add: findPreviewTitle_stop)
  next
    case False
    with "1.prems" "1.IH" show ?thesis
      by (simp add: ancestors_nonempty findPreviewTitle_step split: if_splits)
  qed
qed



subsection \<open>One step of the bucket loop\<close>

lemma ToPropertyKey_member_not_proto:
  "ToPropertyKey (ObjectPrototypeMember k) \<notin> set Object_prototype_keys"
  by (simp add: Object_prototype_keys_def)

lemma map_update_absent:
  "key \<notin> fst ` set b \<Longrightarrow> map (\<lambda>(k, x). if k = key then (k, f x) else (k, x)) b = b"
  by (induction b) auto

lemma map_update_keys:
  "map fst (map (\<lambda>(k, x). if k = key then (k, f x) else (k, x)) b) = map fst b"
  by (induction b) auto

lemma mset_concat_update:
  "distinct (map fst b) \<Longrightarrow> map_of b key = Some x \<Longrightarrow>
   mset (concat (map (changes \<circ> snd)
     (map (\<lambda>(k, x). if k = key then (k, x\<lparr>changes := changes x @ [c]\<rparr>) else (k, x)) b)))
   = mset (concat (map (changes \<circ> snd) b)) + {#c#}"
proof (induction b)
  case Nil
  then show ?case by simp
next
  case (Cons kx b)
  obtain k y where kx: "kx = (k, y)" by (cases kx)
  show ?case
  proof (cases "k = key")
    case True
    with Cons.prems kx have "key \<notin> fst ` set b" by auto
    from map_update_absent [OF this] True kx show ?thesis by simp
  next
    case False
    with Cons kx show ?thesis by simp
  qed
qed

lemma map_of_update:
  "map_of (map (\<lambda>(k, x). if k = key then (k, f x) else (k, x)) b) k'
   = (if k' = key then map_option f (map_of b k') else map_of b k')"
  by (induction b) auto

lemma segment_change_no_path: "path c = None \<Longrightarrow> segment_change obj (s, b) c = Inl TypeError"
  by simp

lemma segment_change_general:
  "path c \<noteq> None \<Longrightarrow> \<not> truthy (title_value obj c) \<Longrightarrow>
   segment_change obj (s, b) c = Inr (s @ [c], b)"
  by (auto simp: title_value_def)

lemma segment_change_existing:
  "path c \<noteq> None \<Longrightarrow> truthy (title_value obj c) \<Longrightarrow>
   map_of b (ToPropertyKey (title_value obj c)) = Some x \<Longrightarrow>
   segment_change obj (s, b) c
   = Inr (s, map (\<lambda>(k, x). if k = ToPropertyKey (title_value obj c)
                             then (k, x\<lparr>changes := changes x @ [c]\<rparr>) else (k, x)) b)"
  by (auto simp: title_value_def Let_def)

lemma segment_change_new:
  "path c \<noteq> None \<Longrightarrow> truthy (title_value obj c) \<Longrightarrow>
   map_of b (ToPropertyKey (title_value obj c)) = None \<Longrightarrow>
   ToPropertyKey (title_value obj c) \<notin> set Object_prototype_keys \<Longrightarrow>
   segment_change obj (s, b) c
   = Inr (s, b @ [(ToPropertyKey (title_value obj c),
                   \<lparr>title = title_value obj c, changes = [c]\<rparr>)])"
  by (auto simp: title_value_def Let_def)

lemma segment_change_TypeError:
  "path c \<noteq> None \<Longrightarrow> truthy (title_value obj c) \<Longrightarrow>
   map_of b (ToPropertyKey (title_value obj c)) = None \<Longrightarrow>
   ToPropertyKey (title_value obj c) \<in> set Object_prototype_keys \<Longrightarrow>
   segment_change obj (s, b) c = Inl TypeError"
  by (auto simp: title_value_def Let_def)

lemma segment_change_cases:
  assumes "segment_change obj (s, b) c = Inr st'"
  obtains
    (general) "\<not> truthy (title_value obj c)" "st' = (s @ [c], b)"
  | (existing) x where "truthy (title_value obj c)"
      "map_of b (ToPropertyKey (title_value obj c)) = Some x"
      "st' = (s, map (\<lambda>(k, x). if k = ToPropertyKey (title_value obj c)
                             then (k, x\<lparr>changes := changes x @ [c]\<rparr>) else (k, x)) b)"
  | (new) "truthy (title_value obj c)"
      "map_of b (ToPropertyKey (title_value obj c)) = None"
      "ToPropertyKey (title_value obj c) \<notin> set Object_prototype_keys"
      "st' = (s, b @ [(ToPropertyKey (title_value obj c),
                   \<lparr>title = title_value obj c, changes = [c]\<rparr>)])"
  using assms by (auto simp: title_value_def Let_def split: if_splits option.splits)

lemma segment_change_path: "segment_change obj (s, b) c = Inr st' \<Longrightarrow> path c \<noteq> None"
  by (auto split: option.splits)

lemma segment_change_error: "segment_change obj st c = Inl e \<Longrightarrow> e = TypeError"
  by (cases st) (auto simp: Let_def split: if_splits option.splits)

declare segment_change.simps [simp del]

lemma segment_change_count:
  assumes "segment_change obj (s, b) c = Inr (s', b')" "distinct (map fst b)"
  shows "mset (s' @ concat (map (changes \<circ> snd) b'))
         = mset (s @ concat (map (changes \<circ> snd) b)) + {#c#}"
  using assms(1)
proof (cases rule: segment_change_cases)
  case general
  then show ?thesis by simp
next
  case (existing x)
  with mset_concat_update [OF assms(2) existing(2), of c] show ?thesis by simp
next
  case new
  then show ?thesis by simp
qed

lemma in_set_update:
  "(k, y) \<in> set (map (\<lambda>(k, x). if k = key then (k, f x) else (k, x)) b) \<Longrightarrow>
   \<exists>y0. (k, y0) \<in> set b \<and> y = (if k = key then f y0 else y0)"
  by (induction b) (auto split: if_splits)

lemma segment_change_well_sorted:
  assumes "segment_change obj (s, b) c = Inr st'" "well_sorted obj (s, b)"
  shows "well_sorted obj st'"
  using assms(1)
proof (cases rule: segment_change_cases)
  case general
  with assms(2) show ?thesis by (auto simp: well_sorted_def)
next
  case (existing x)
  let ?key = "ToPropertyKey (title_value obj c)"
  have old: "\<And>k y d. (k, y) \<in> set b \<Longrightarrow> d \<in> set (changes y) \<Longrightarrow>
      truthy (title_value obj d) \<and> ToPropertyKey (title_value obj d) = k"
    using assms(2) unfolding well_sorted_def by auto
  have "truthy (title_value obj d) \<and> ToPropertyKey (title_value obj d) = k"
    if "(k, y) \<in> set (snd st')" "d \<in> set (changes y)" for k y d
  proof -
    from that(1) existing(3) obtain y0 where y0: "(k, y0) \<in> set b"
      "y = (if k = ?key then y0\<lparr>changes := changes y0 @ [c]\<rparr> else y0)"
      using in_set_update [of k y ?key "\<lambda>x. x\<lparr>changes := changes x @ [c]\<rparr>" b] by auto
    show ?thesis
    proof (cases "d \<in> set (changes y0)")
      case True
      with old y0(1) show ?thesis by blast
    next
      case False
      with that(2) y0(2) have "d = c" "k = ?key" by (auto split: if_splits)
      with existing(1) show ?thesis by simp
    qed
  qed
  moreover have "map fst (snd st') = map fst b"
    using existing(3) by (simp only: snd_conv map_update_keys)
  then have "distinct (map fst (snd st'))"
    using assms(2) by (simp add: well_sorted_def)
  moreover have "\<forall>c\<in>set (fst st'). \<not> truthy (title_value obj c)"
    using assms(2) existing(3) by (simp add: well_sorted_def)
  ultimately show ?thesis unfolding well_sorted_def by blast
next
  case new
  let ?key = "ToPropertyKey (title_value obj c)"
  from new(2) have notin: "?key \<notin> fst ` set b"
    by (simp add: map_of_eq_None_iff)
  have old: "\<And>k y d. (k, y) \<in> set b \<Longrightarrow> d \<in> set (changes y) \<Longrightarrow>
      truthy (title_value obj d) \<and> ToPropertyKey (title_value obj d) = k"
    using assms(2) unfolding well_sorted_def by auto
  have "truthy (title_value obj d) \<and> ToPropertyKey (title_value obj d) = k"
    if "(k, y) \<in> set (snd st')" "d \<in> set (changes y)" for k y d
  proof (cases "(k, y) \<in> set b")
    case True
    with old that(2) show ?thesis by blast
  next
    case False
    with that new(4) have "k = ?key" "d = c" by auto
    with new(1) show ?thesis by simp
  qed
  moreover have "distinct (map fst (snd st'))"
    using assms(2) new(4) notin by (simp add: well_sorted_def)
  moreover have "\<forall>c\<in>set (fst st'). \<not> truthy (title_value obj c)"
    using assms(2) new(4) by (simp add: well_sorted_def)
  ultimately show ?thesis unfolding well_sorted_def by blast
qed

lemma segment_change_placed:
  assumes "segment_change obj (s, b) c = Inr st'"
  shows "placed obj st' c"
  using assms
proof (cases rule: segment_change_cases)
  case general
  then show ?thesis by (simp add: placed_def)
next
  case (existing x)
  then show ?thesis by (simp add: placed_def map_of_update)
next
  case new
  then show ?thesis by (simp add: placed_def map_add_def [symmetric] map_add_Some_iff)
qed

lemma segment_change_keeps_placed:
  assumes "segment_change obj (s, b) c = Inr st'" "placed obj (s, b) d"
  shows "placed obj st' d"
  using assms(1)
proof (cases rule: segment_change_cases)
  case general
  with assms(2) show ?thesis by (auto simp: placed_def split: if_splits)
next
  case (existing x)
  with assms(2) show ?thesis by (auto simp: placed_def map_of_update split: if_splits)
next
  case new
  with assms(2) show ?thesis by (auto simp: placed_def split: if_splits)
qed



subsection \<open>The bucket loop\<close>

lemma segment_changes_invariant:
  "segment_changes obj st cs = Inr st' \<Longrightarrow> well_sorted obj st \<Longrightarrow>
   well_sorted obj st'
   \<and> mset (fst st' @ concat (map (changes \<circ> snd) (snd st')))
     = mset (fst st @ concat (map (changes \<circ> snd) (snd st))) + mset cs"
proof (induction cs arbitrary: st)
  case Nil
  then show ?case by simp
next
  case (Cons c cs)
  from Cons.prems(1) obtain st1 where st1: "segment_change obj st c = Inr st1"
    and rest: "segment_changes obj st1 cs = Inr st'"
    by (auto split: sum.splits)
  obtain s b where st: "st = (s, b)" by (cases st)
  obtain s1 b1 where st1': "st1 = (s1, b1)" by (cases st1)
  have ws1: "well_sorted obj st1"
    using segment_change_well_sorted st1 Cons.prems(2) st by blast
  have "distinct (map fst b)"
    using Cons.prems(2) st by (simp add: well_sorted_def)
  from segment_change_count [OF _ this, of obj s c s1 b1] st1 st st1'
  have "mset (fst st1 @ concat (map (changes \<circ> snd) (snd st1)))
      = mset (fst st @ concat (map (changes \<circ> snd) (snd st))) + {#c#}"
    by simp
  with Cons.IH [OF rest ws1] show ?case by (simp add: comp_def)
qed

lemma segment_changes_placed:
  "segment_changes obj st cs = Inr st' \<Longrightarrow>
   (\<forall>c\<in>set cs. placed obj st' c) \<and> (\<forall>d. placed obj st d \<longrightarrow> placed obj st' d)"
proof (induction cs arbitrary: st)
  case Nil
  then show ?case by simp
next
  case (Cons c cs)
  from Cons.prems(1) obtain st1 where st1: "segment_change obj st c = Inr st1"
    and rest: "segment_changes obj st1 cs = Inr st'"
    by (auto split: sum.splits)
  obtain s b where st: "st = (s, b)" by (cases st)
  have "placed obj st1 c" and "\<And>d. placed obj st d \<Longrightarrow> placed obj st1 d"
    using segment_change_placed segment_change_keeps_placed st1 st by blast+
  with Cons.IH [OF rest] show ?case by auto
qed

lemma segment_changes_returns:
  "\<forall>c\<in>set cs. path c \<noteq> None \<and> (truthy (title_value obj c) \<longrightarrow>
      ToPropertyKey (title_value obj c) \<notin> set Object_prototype_keys) \<Longrightarrow>
   \<exists>st'. segment_changes obj st cs = Inr st'"
proof (induction cs arbitrary: st)
  case Nil
  then show ?case by simp
next
  case (Cons c cs)
  obtain s b where st: "st = (s, b)" by (cases st)
  have "\<exists>st1. segment_change obj (s, b) c = Inr st1"
  proof (cases "truthy (title_value obj c)")
    case False
    with Cons.prems show ?thesis by (simp add: segment_change_general)
  next
    case True
    with Cons.prems have "path c \<noteq> None"
      "ToPropertyKey (title_value obj c) \<notin> set Object_prototype_keys"
      by simp_all
    with True show ?thesis
      by (cases "map_of b (ToPropertyKey (title_value obj c))")
         (simp_all add: segment_change_new segment_change_existing)
  qed
  then obtain st1 where "segment_change obj st c = Inr st1"
    using st by blast
  moreover from Cons have "\<exists>st'. segment_changes obj st1 cs = Inr st'"
    by simp
  ultimately show ?case by simp
qed

lemma well_sorted_empty: "well_sorted obj ([], [])"
  by (simp add: well_sorted_def)

subsection \<open>The values of the preview title\<close>

lemma findPreviewTitle_range:
  "findPreviewTitle obj parts pt = pt \<or> (\<exists>k. findPreviewTitle obj parts pt = get_pathToPreview obj k)"
proof (induction obj parts pt rule: findPreviewTitle.induct)
  case (1 obj pathParts previewTitle)
  show ?case
  proof (cases "length pathParts > 0 \<and> \<not> truthy previewTitle")
    case True
    with "1.IH" show ?thesis
      by (auto simp: findPreviewTitle_step)
  next
    case False
    then show ?thesis by (auto simp: findPreviewTitle_stop)
  qed
qed

lemma previewTitle_of_key:
  assumes "\<forall>p\<in>set previews. title p \<notin> set Object_prototype_keys"
    and "truthy (previewTitle_of (pathToPreview previews) p)"
  shows "ToPropertyKey (previewTitle_of (pathToPreview previews) p) \<notin> set Object_prototype_keys"
proof -
  let ?v = "previewTitle_of (pathToPreview previews) p"
  from findPreviewTitle_range [of "pathToPreview previews" "js_split (CHR ''.'') p" Null]
    assms(2)
  obtain k where k: "?v = get_pathToPreview (pathToPreview previews) k"
    by (auto simp: previewTitle_of_def)
  show ?thesis
  proof (cases "pathToPreview previews k")
    case None
    with k assms(2) have "?v = ObjectPrototypeMember k"
      by (auto simp: get_pathToPreview_def split: if_splits)
    then show ?thesis by (simp only: ToPropertyKey_member_not_proto not_False_eq_True)
  next
    case (Some t)
    with k have "?v = Str t" by (simp add: get_pathToPreview_def)
    moreover from pathToPreview_Some [OF Some] assms(1)
    have "t \<notin> set Object_prototype_keys" by auto
    ultimately show ?thesis by simp
  qed
qed

lemma title_value_key:
  assumes "\<forall>p\<in>set previews. title p \<notin> set Object_prototype_keys"
    and "truthy (title_value (pathToPreview previews) c)"
  shows "ToPropertyKey (title_value (pathToPreview previews) c) \<notin> set Object_prototype_keys"
  using assms previewTitle_of_key [OF assms(1)]
  by (auto simp: title_value_def split: option.splits)

subsection \<open>Splitting and joining paths\<close>

lemma js_split_nonempty: "js_split sep s \<noteq> []"
  by (induction s) (auto split: list.splits)

lemma js_join_Cons_Cons: "js_join sep ((c # p) # ps) = c # js_join sep (p # ps)"
  by (cases ps) auto

lemma js_join_split: "js_join sep (js_split sep s) = s"
proof (induction s)
  case Nil
  then show ?case by simp
next
  case (Cons c s)
  obtain p ps where ps: "js_split sep s = p # ps"
    using js_split_nonempty [of sep s] by (cases "js_split sep s") auto
  with Cons show ?case
    by (cases "c = sep") (simp_all add: js_join_Cons_Cons)
qed

lemma previewTitle_of_exact:
  assumes "truthy (get_pathToPreview obj p)"
  shows "previewTitle_of obj p = get_pathToPreview obj p"
  using assms js_split_nonempty [of "CHR ''.''" p]
  by (simp add: previewTitle_of_def findPreviewTitle_step findPreviewTitle_stop js_join_split)

lemma ancestors_hd: "a \<in> set (ancestors parts) \<Longrightarrow> a \<noteq> [] \<and> hd a = hd parts"
proof (induction parts rule: ancestors.induct)
  case (1 parts)
  show ?case
  proof (cases "parts = []")
    case True
    with "1.prems" show ?thesis by (simp add: ancestors_Nil)
  next
    case False
    with "1.prems" have "a = parts \<or> a \<in> set (ancestors (butlast parts))"
      by (simp add: ancestors_nonempty)
    then show ?thesis
    proof
      assume "a = parts"
      with False show ?thesis by simp
    next
      assume a: "a \<in> set (ancestors (butlast parts))"
      with "1.IH" False have "a \<noteq> [] \<and> hd a = hd (butlast parts)" by simp
      moreover from a have "butlast parts \<noteq> []"
        by (auto simp: ancestors_Nil)
      then have "hd (butlast parts) = hd parts"
        by (cases parts) auto
      ultimately show ?thesis by simp
    qed
  qed
qed

lemma js_join_no_sep: "a \<noteq> [] \<Longrightarrow> sep \<notin> set (js_join sep a) \<Longrightarrow> js_join sep a = hd a"
  by (induction sep a rule: js_join.induct) auto

lemma Object_prototype_keys_no_dot: "k \<in> set Object_prototype_keys \<Longrightarrow> CHR ''.'' \<notin> set k"
  by (auto simp: Object_prototype_keys_def)

lemma ancestor_not_proto:
  assumes "a \<in> set (ancestors parts)" "hd parts \<notin> set Object_prototype_keys"
  shows "js_join (CHR ''.'') a \<notin> set Object_prototype_keys"
proof
  assume k: "js_join (CHR ''.'') a \<in> set Object_prototype_keys"
  from ancestors_hd [OF assms(1)] have a: "a \<noteq> []" "hd a = hd parts" by simp_all
  from js_join_no_sep [OF a(1) Object_prototype_keys_no_dot [OF k]] a(2)
  have "js_join (CHR ''.'') a = hd parts" by simp
  with k assms(2) show False by simp
qed

lemma find_first_covering:
  assumes "\<forall>a\<in>set xs. truthy (g a) \<longleftrightarrow> Q (f a)"
  shows "(find Q (map f xs) = None \<longrightarrow> find truthy (map g xs) = None)
       \<and> (\<forall>s. find Q (map f xs) = Some s \<longrightarrow>
             (\<exists>a\<in>set xs. s = f a \<and> find truthy (map g xs) = Some (g a)))"
  using assms by (induction xs) auto

lemma previewTitle_of_ancestors:
  assumes vals: "\<forall>k t. obj k = Some t \<longrightarrow> t \<noteq> []"
    and hd: "hd (js_split (CHR ''.'') p) \<notin> set Object_prototype_keys"
  shows "(find (\<lambda>a. obj a \<noteq> None) (ancestor_paths p) = None
            \<longrightarrow> \<not> truthy (previewTitle_of obj p))
       \<and> (\<forall>a. find (\<lambda>a. obj a \<noteq> None) (ancestor_paths p) = Some a
            \<longrightarrow> (\<exists>t. obj a = Some t \<and> previewTitle_of obj p = Str t))"
proof -
  let ?parts = "js_split (CHR ''.'') p"
  let ?g = "\<lambda>a. get_pathToPreview obj (js_join (CHR ''.'') a)"
  have agree: "\<forall>a\<in>set (ancestors ?parts). truthy (?g a) \<longleftrightarrow> obj (js_join (CHR ''.'') a) \<noteq> None"
  proof
    fix a assume "a \<in> set (ancestors ?parts)"
    from ancestor_not_proto [OF this hd] vals
    show "truthy (?g a) \<longleftrightarrow> obj (js_join (CHR ''.'') a) \<noteq> None"
      by (auto simp: get_pathToPreview_def split: option.splits)
  qed
  have ff: "(find (\<lambda>a. obj a \<noteq> None) (ancestor_paths p) = None
        \<longrightarrow> find truthy (map ?g (ancestors ?parts)) = None)
      \<and> (\<forall>s. find (\<lambda>a. obj a \<noteq> None) (ancestor_paths p) = Some s \<longrightarrow>
            (\<exists>a\<in>set (ancestors ?parts). s = js_join (CHR ''.'') a
               \<and> find truthy (map ?g (ancestors ?parts)) = Some (?g a)))"
    unfolding ancestor_paths_def
    using find_first_covering [of "ancestors ?parts" ?g "\<lambda>a. obj a \<noteq> None" "js_join (CHR ''.'')"]
      agree by blast
  show ?thesis
  proof (intro conjI impI allI)
    assume "find (\<lambda>a. obj a \<noteq> None) (ancestor_paths p) = None"
    with ff have "find truthy (map ?g (ancestors ?parts)) = None" by blast
    from findPreviewTitle_miss [OF _ this, of Null]
    show "\<not> truthy (previewTitle_of obj p)" by (simp add: previewTitle_of_def)
  next
    fix s assume s: "find (\<lambda>a. obj a \<noteq> None) (ancestor_paths p) = Some s"
    with ff obtain a where a: "a \<in> set (ancestors ?parts)" "s = js_join (CHR ''.'') a"
      "find truthy (map ?g (ancestors ?parts)) = Some (?g a)" by blast
    from findPreviewTitle_hit [OF _ a(3), of Null]
    have pt: "previewTitle_of obj p = ?g a" by (simp add: previewTitle_of_def)
    from s have "obj s \<noteq> None" by (auto simp: find_Some_iff)
    then obtain t where t: "obj s = Some t" by auto
    with pt a(2) have "previewTitle_of obj p = Str t"
      by (simp add: get_pathToPreview_def)
    with t show "\<exists>t. obj s = Some t \<and> previewTitle_of obj p = Str t" by blast
  qed
qed

subsection \<open>What the bucket loop does away from its defects\<close>

text \<open>
  The lemmas of this subsection say what \<open>segmentPreviewChanges\<close> does on the inputs
  that stay clear of the defects shown further down: every change has a path, no
  preview title is empty, and neither a title nor the first segment of a path is the
  name of a member of \<^verbatim>\<open>Object.prototype\<close>.
\<close>

lemma segmentPreviewChanges_returns:
  assumes "\<forall>p\<in>set previews. title p \<notin> set Object_prototype_keys"
    and "\<forall>c\<in>set chs. path c \<noteq> None"
  shows "\<exists>st'. segment_changes (pathToPreview previews) ([], []) chs = Inr st'
      \<and> segmentPreviewChanges chs previews
          = Inr \<lparr>schemaChangesToReport = fst st', previewChangesToReport = snd st'\<rparr>"
proof -
  from segment_changes_returns [of chs "pathToPreview previews" "([], [])"]
    title_value_key [OF assms(1)] assms(2)
  obtain st' where "segment_changes (pathToPreview previews) ([], []) chs = Inr st'"
    by blast
  then show ?thesis
    by (cases st') (simp add: segmentPreviewChanges_def)
qed

lemma segmentPreviewChanges_partition:
  assumes "\<forall>p\<in>set previews. title p \<notin> set Object_prototype_keys"
    and "\<forall>c\<in>set chs. path c \<noteq> None"
  shows "\<exists>seg. segmentPreviewChanges chs previews = Inr seg
     \<and> mset (schemaChangesToReport seg
              @ concat (map (changes \<circ> snd) (previewChangesToReport seg))) = mset chs
     \<and> length (schemaChangesToReport seg)
         + length (concat (map (changes \<circ> snd) (previewChangesToReport seg))) = length chs
     \<and> distinct (map fst (previewChangesToReport seg))
     \<and> (\<forall>k b c. (k, b) \<in> set (previewChangesToReport seg) \<and> c \<in> set (changes b)
           \<longrightarrow> c \<notin> set (schemaChangesToReport seg))
     \<and> (\<forall>k b k' b' c. (k, b) \<in> set (previewChangesToReport seg)
           \<and> (k', b') \<in> set (previewChangesToReport seg)
           \<and> c \<in> set (changes b) \<and> c \<in> set (changes b') \<longrightarrow> k = k')"
proof -
  let ?obj = "pathToPreview previews"
  from segmentPreviewChanges_returns [OF assms]
  obtain st' where run: "segment_changes ?obj ([], []) chs = Inr st'"
    and seg: "segmentPreviewChanges chs previews
          = Inr \<lparr>schemaChangesToReport = fst st', previewChangesToReport = snd st'\<rparr>"
    by blast
  from segment_changes_invariant [OF run well_sorted_empty]
  have ws: "well_sorted ?obj st'"
    and count: "mset (fst st' @ concat (map (changes \<circ> snd) (snd st'))) = mset chs"
    by simp_all
  from count have "size (mset (fst st' @ concat (map (changes \<circ> snd) (snd st')))) = size (mset chs)"
    by (rule arg_cong)
  then have len: "length (fst st') + length (concat (map (changes \<circ> snd) (snd st'))) = length chs"
    by simp
  from ws have d: "distinct (map fst (snd st'))"
    and gen: "\<forall>c\<in>set (fst st'). \<not> truthy (title_value ?obj c)"
    and buck: "\<And>k b c. (k, b) \<in> set (snd st') \<Longrightarrow> c \<in> set (changes b) \<Longrightarrow>
         truthy (title_value ?obj c) \<and> ToPropertyKey (title_value ?obj c) = k"
    unfolding well_sorted_def by blast+
  have excl: "\<forall>k b c. (k, b) \<in> set (snd st') \<and> c \<in> set (changes b) \<longrightarrow> c \<notin> set (fst st')"
    using gen buck by blast
  have one: "\<forall>k b k' b' c. (k, b) \<in> set (snd st') \<and> (k', b') \<in> set (snd st')
           \<and> c \<in> set (changes b) \<and> c \<in> set (changes b') \<longrightarrow> k = k'"
    using buck by blast
  from seg count len d excl one show ?thesis by simp
qed

lemma later_preview_wins:
  assumes "k \<in> set (toggled_on p)" "\<forall>q\<in>set later. k \<notin> set (toggled_on q)"
    and "k \<noteq> ''__proto__''"
  shows "get_pathToPreview (pathToPreview (before @ p # later)) k = Str (title p)
     \<and> (title p \<noteq> [] \<longrightarrow>
           previewTitle_of (pathToPreview (before @ p # later)) k = Str (title p))"
proof -
  have "pathToPreview (before @ p # later) k = Some (title p)"
    unfolding pathToPreview_def by (rule fold_toggle_paths_last [OF assms])
  then have g: "get_pathToPreview (pathToPreview (before @ p # later)) k = Str (title p)"
    by (simp add: get_pathToPreview_def)
  then show ?thesis
    using previewTitle_of_exact [of "pathToPreview (before @ p # later)" k] by auto
qed

lemma attribution_most_specific_prefix:
  assumes titles: "\<forall>p\<in>set previews. title p \<noteq> [] \<and> title p \<notin> set Object_prototype_keys"
    and paths: "\<forall>c\<in>set chs. path c \<noteq> None"
  shows "\<exists>seg. segmentPreviewChanges chs previews = Inr seg \<and>
        (\<forall>c\<in>set chs. \<forall>p. path c = Some p
             \<and> hd (js_split (CHR ''.'') p) \<notin> set Object_prototype_keys \<longrightarrow>
           (case find (\<lambda>a. pathToPreview previews a \<noteq> None) (ancestor_paths p) of
              None \<Rightarrow> c \<in> set (schemaChangesToReport seg)
                \<and> (\<forall>k b. (k, b) \<in> set (previewChangesToReport seg) \<longrightarrow> c \<notin> set (changes b))
            | Some a \<Rightarrow>
                \<exists>t b. pathToPreview previews a = Some t
                  \<and> map_of (previewChangesToReport seg) t = Some b \<and> c \<in> set (changes b)
                  \<and> c \<notin> set (schemaChangesToReport seg)))"
proof -
  let ?obj = "pathToPreview previews"
  from titles have "\<forall>p\<in>set previews. title p \<notin> set Object_prototype_keys" by blast
  from segmentPreviewChanges_returns [OF this paths]
  obtain st' where run: "segment_changes ?obj ([], []) chs = Inr st'"
    and seg: "segmentPreviewChanges chs previews
          = Inr \<lparr>schemaChangesToReport = fst st', previewChangesToReport = snd st'\<rparr>"
    by blast
  from segment_changes_placed [OF run] have pl: "\<forall>c\<in>set chs. placed ?obj st' c"
    by blast
  from segment_changes_invariant [OF run well_sorted_empty]
  have gen: "\<forall>c\<in>set (fst st'). \<not> truthy (title_value ?obj c)"
    and buck: "\<And>k b c. (k, b) \<in> set (snd st') \<Longrightarrow> c \<in> set (changes b) \<Longrightarrow>
         truthy (title_value ?obj c)"
    unfolding well_sorted_def by blast+
  have vals: "\<forall>k t. ?obj k = Some t \<longrightarrow> t \<noteq> []"
    using titles by (auto dest!: pathToPreview_Some)
  let ?seg = "\<lparr>schemaChangesToReport = fst st', previewChangesToReport = snd st'\<rparr>"
  have "case find (\<lambda>a. ?obj a \<noteq> None) (ancestor_paths p) of
          None \<Rightarrow> c \<in> set (schemaChangesToReport ?seg)
            \<and> (\<forall>k b. (k, b) \<in> set (previewChangesToReport ?seg) \<longrightarrow> c \<notin> set (changes b))
        | Some a \<Rightarrow> \<exists>t b. ?obj a = Some t \<and> map_of (previewChangesToReport ?seg) t = Some b
            \<and> c \<in> set (changes b) \<and> c \<notin> set (schemaChangesToReport ?seg)"
    if c: "c \<in> set chs" and p: "path c = Some p"
      and hd: "hd (js_split (CHR ''.'') p) \<notin> set Object_prototype_keys"
    for c p
  proof (cases "find (\<lambda>a. ?obj a \<noteq> None) (ancestor_paths p)")
    case None
    with previewTitle_of_ancestors [OF vals hd] have "\<not> truthy (previewTitle_of ?obj p)"
      by blast
    with p have f: "\<not> truthy (title_value ?obj c)" by (simp add: title_value_def)
    from pl c have "placed ?obj st' c" by blast
    with f have "c \<in> set (fst st')" by (simp add: placed_def)
    moreover from f buck have "\<forall>k b. (k, b) \<in> set (snd st') \<longrightarrow> c \<notin> set (changes b)"
      by blast
    ultimately show ?thesis unfolding None by simp
  next
    case (Some a)
    with previewTitle_of_ancestors [OF vals hd]
    obtain t where t: "?obj a = Some t" "previewTitle_of ?obj p = Str t" by blast
    with p have tv: "title_value ?obj c = Str t" by (simp add: title_value_def)
    with t(1) vals have tr: "truthy (title_value ?obj c)" by auto
    from pl c have "placed ?obj st' c" by blast
    with tr tv obtain b where "map_of (snd st') t = Some b" "c \<in> set (changes b)"
      by (auto simp: placed_def)
    moreover from tr gen have "c \<notin> set (fst st')" by blast
    ultimately show ?thesis using t(1) unfolding Some by simp
  qed
  with seg show ?thesis by blast
qed

lemma segmentPreviewChanges_example:
  "segmentPreviewChanges
       [\<lparr>type = FieldAdded, path = Some ''Query.foo.bar'', message = ''Field 'bar' was added''\<rparr>,
        \<lparr>type = FieldRemoved, path = Some ''Query.other'',
          message = ''Field 'other' was removed''\<rparr>]
       [\<lparr>title = ''FooPreview'', toggled_on = [''Query.foo'']\<rparr>]
     = Inr \<lparr>schemaChangesToReport =
              [\<lparr>type = FieldRemoved, path = Some ''Query.other'',
                message = ''Field 'other' was removed''\<rparr>],
            previewChangesToReport =
              [(''FooPreview'', \<lparr>title = Str ''FooPreview'', changes =
                 [\<lparr>type = FieldAdded, path = Some ''Query.foo.bar'',
                   message = ''Field 'bar' was added''\<rparr>]\<rparr>)]\<rparr>"
  by (simp add: segmentPreviewChanges_def pathToPreview_def toggle_paths_def
      set_pathToPreview_def get_pathToPreview_def previewTitle_of_def segment_change.simps
      findPreviewTitle_stop findPreviewTitle_step Object_prototype_keys_def Let_def)

subsection \<open>Attribution by the most specific covering prefix\<close>

text \<open>
  Claim C1. Attribution should walk the ancestor prefixes of a change's path, the
  full path first, and give the change to the preview of the first prefix found in
  the index, or to the general bucket when none is found. The script does not on
  three inputs. With no preview at all, the change with path \<open>''toString.x''\<close> is
  not put into the general bucket: the read of the index at \<open>''toString''\<close> yields
  an inherited function, which becomes the preview title. With a preview of the empty
  title that lists \<open>''Query.foo''\<close>, the index holds that path, and yet the change
  with path \<open>''Query.foo.bar''\<close> is put into the general bucket, because the empty
  string is falsy. And a reportable change without a path is not attributed at all:
  the function throws.
\<close>

theorem falsy_title_and_inherited_member:
  "segmentPreviewChanges
       [\<lparr>type = FieldAdded, path = Some ''toString.x'', message = ''Field 'x' was added''\<rparr>] []
     = Inr \<lparr>schemaChangesToReport = [],
            previewChangesToReport =
              [(''function toString() { [native code] }'',
                \<lparr>title = ObjectPrototypeMember ''toString'', changes =
                  [\<lparr>type = FieldAdded, path = Some ''toString.x'',
                    message = ''Field 'x' was added''\<rparr>]\<rparr>)]\<rparr>
   \<and> pathToPreview [\<lparr>title = '''', toggled_on = [''Query.foo'']\<rparr>] ''Query.foo'' = Some ''''
   \<and> segmentPreviewChanges
       [\<lparr>type = FieldAdded, path = Some ''Query.foo.bar'', message = ''Field 'bar' was added''\<rparr>]
       [\<lparr>title = '''', toggled_on = [''Query.foo'']\<rparr>]
     = Inr \<lparr>schemaChangesToReport =
              [\<lparr>type = FieldAdded, path = Some ''Query.foo.bar'',
                message = ''Field 'bar' was added''\<rparr>],
            previewChangesToReport = []\<rparr>
   \<and> segmentPreviewChanges
       [\<lparr>type = SchemaQueryTypeChanged, path = None,
         message = ''Schema query root has changed''\<rparr>]
       [\<lparr>title = ''FooPreview'', toggled_on = [''Query.foo'']\<rparr>]
     = Inl TypeError"
  by (simp add: segmentPreviewChanges_def pathToPreview_def toggle_paths_def
      set_pathToPreview_def get_pathToPreview_def previewTitle_of_def segment_change.simps
      findPreviewTitle_stop findPreviewTitle_step Object_prototype_keys_def Let_def)

subsection \<open>Later preview definitions and the index\<close>

text \<open>
  Claim C5. When two preview definitions list the same path, the definition loaded
  later should determine the index entry and with it the attribution for that path.
  The script does not for the path \<open>''__proto__''\<close>: both writes to the index are
  ignored, no own property is created, a read of the index at that path yields the
  prototype object, and a change with that path goes to a bucket that belongs to
  neither definition.
\<close>

theorem proto_path_is_not_written:
  "pathToPreview [\<lparr>title = ''A'', toggled_on = [''__proto__'']\<rparr>,
                  \<lparr>title = ''B'', toggled_on = [''__proto__'']\<rparr>] ''__proto__'' = None
   \<and> get_pathToPreview
     (pathToPreview [\<lparr>title = ''A'', toggled_on = [''__proto__'']\<rparr>,
                     \<lparr>title = ''B'', toggled_on = [''__proto__'']\<rparr>]) ''__proto__''
     = ObjectPrototypeMember ''__proto__''
   \<and> segmentPreviewChanges
       [\<lparr>type = FieldAdded, path = Some ''__proto__'', message = ''m''\<rparr>]
       [\<lparr>title = ''A'', toggled_on = [''__proto__'']\<rparr>,
        \<lparr>title = ''B'', toggled_on = [''__proto__'']\<rparr>]
     = Inr \<lparr>schemaChangesToReport = [],
            previewChangesToReport =
              [(''[object Object]'', \<lparr>title = ObjectPrototypeMember ''__proto__'', changes =
                 [\<lparr>type = FieldAdded, path = Some ''__proto__'', message = ''m''\<rparr>]\<rparr>)]\<rparr>"
  by (simp add: segmentPreviewChanges_def pathToPreview_def toggle_paths_def
      set_pathToPreview_def get_pathToPreview_def previewTitle_of_def segment_change.simps
      findPreviewTitle_stop findPreviewTitle_step Object_prototype_keys_def Let_def)

subsection \<open>Every change in exactly one bucket\<close>

text \<open>
  Claim C9. \<open>segmentPreviewChanges\<close> should place every input change in exactly one
  output bucket, so that none is dropped or duplicated. The script does not on two
  inputs, where it returns no buckets at all. For a preview titled
  \<open>''constructor''\<close> that covers a change, the read
  \<^verbatim>\<open>changesByPreview[previewTitle]\<close> yields the inherited \<^verbatim>\<open>Object\<close> function,
  no bucket is created, and \<^verbatim>\<open>previewChanges.changes.push\<close> throws. For a
  reportable change without a path, \<^verbatim>\<open>change.path.split\<close> throws.
\<close>

theorem prototype_named_title_throws:
  "segmentPreviewChanges
       [\<lparr>type = FieldAdded, path = Some ''Query.foo.bar'', message = ''Field 'bar' was added''\<rparr>]
       [\<lparr>title = ''constructor'', toggled_on = [''Query.foo'']\<rparr>]
     = Inl TypeError
   \<and> SchemaQueryTypeChanged \<in> set CHANGES_TO_REPORT
   \<and> segmentPreviewChanges
       [\<lparr>type = SchemaQueryTypeChanged, path = None,
         message = ''Schema query root has changed''\<rparr>] []
     = Inl TypeError"
  by (simp add: segmentPreviewChanges_def pathToPreview_def toggle_paths_def
      set_pathToPreview_def get_pathToPreview_def previewTitle_of_def segment_change.simps
      findPreviewTitle_stop findPreviewTitle_step Object_prototype_keys_def Let_def
      CHANGES_TO_REPORT_def)

subsection \<open>The changelog entry\<close>

lemma segment_changes_error: "segment_changes obj st cs = Inl e \<Longrightarrow> e = TypeError"
  by (induction cs arbitrary: st) (auto split: sum.splits dest: segment_change_error)

lemma segmentPreviewChanges_error: "segmentPreviewChanges cs previews = Inl e \<Longrightarrow> e = TypeError"
  by (auto simp: segmentPreviewChanges_def split: sum.splits dest: segment_changes_error)

lemma length_gt_0_False: "\<not> length_gt_0 changesByPreview"
  by (simp add: length_gt_0_def split: option.splits)

text \<open>
  The test \<^verbatim>\<open>previewChangesToReport.length > 0\<close> never holds, so an entry is
  returned exactly when the general bucket is not empty; a returned entry has one
  section in \<open>schemaChanges\<close>, with the fixed title and the cleaned messages of the
  general bucket.
\<close>

lemma createChangelogEntry_Some:
  assumes "createChangelogEntry chs previews = Inr (Some e)"
  shows "\<exists>reported seg. changesToReport chs = Inr reported
     \<and> segmentPreviewChanges reported previews = Inr seg
     \<and> schemaChangesToReport seg \<noteq> []
     \<and> schemaChanges e =
         [\<lparr>title = ''The GraphQL schema includes these changes:'',
           changes = cleanMessagesFromChanges (schemaChangesToReport seg)\<rparr>]"
  using assms
  by (auto simp: createChangelogEntry_def length_gt_0_False split: sum.splits if_splits)

lemma createChangelogEntry_None_iff:
  "createChangelogEntry chs previews = Inr None \<longleftrightarrow>
   (\<exists>reported seg. changesToReport chs = Inr reported
     \<and> segmentPreviewChanges reported previews = Inr seg
     \<and> schemaChangesToReport seg = [])"
  by (auto simp: createChangelogEntry_def length_gt_0_False split: sum.splits if_splits)

lemma createChangelogEntry_example:
  "createChangelogEntry
       [\<lparr>type = FieldAdded, path = Some ''Query.foo.bar'', message = ''Field 'bar' was added''\<rparr>,
        \<lparr>type = FieldDescriptionChanged, path = Some ''Query.a'',
          message = ''Description changed''\<rparr>,
        \<lparr>type = FieldRemoved, path = Some ''Query.other'',
          message = ''Field 'other' was removed''\<rparr>]
       [\<lparr>title = ''FooPreview'', toggled_on = [''Query.foo'']\<rparr>]
     = Inr (Some
         \<lparr>schemaChanges =
            [\<lparr>title = ''The GraphQL schema includes these changes:'',
              changes = [''Field `other` was removed'']\<rparr>],
          previewChanges =
            [\<lparr>title = ''The [FooPreview preview](/graphql/overview/schema-previews#foopreview-preview) includes these changes:'',
              changes = [''Field `bar` was added'']\<rparr>],
          upcomingChanges = []\<rparr>)"
proof -
  have t: "entryTitle ''FooPreview''
      = ''The [FooPreview preview](/graphql/overview/schema-previews#foopreview-preview) includes these changes:''"
    by (simp add: entryTitle_def cleanPreviewTitle_def endsWith_def previewAnchor_def
        remove_non_word_def replace_spaces_def toLowerCase_def toLowerCase_char_def
        word_char_def char_of_eq_iff)
  have f: "for_in [(''FooPreview'', b)] = [(''FooPreview'', b)]" for b :: bucket
    by (simp add: for_in_def array_index_def)
  have r: "changesToReport
        [\<lparr>type = FieldAdded, path = Some ''Query.foo.bar'', message = ''Field 'bar' was added''\<rparr>,
        \<lparr>type = FieldDescriptionChanged, path = Some ''Query.a'',
          message = ''Description changed''\<rparr>,
        \<lparr>type = FieldRemoved, path = Some ''Query.other'',
          message = ''Field 'other' was removed''\<rparr>]
      = Inr [\<lparr>type = FieldAdded, path = Some ''Query.foo.bar'',
               message = ''Field 'bar' was added''\<rparr>,
             \<lparr>type = FieldRemoved, path = Some ''Query.other'',
               message = ''Field 'other' was removed''\<rparr>]"
    by (simp add: changesToReport_def CHANGES_TO_REPORT_def CHANGES_TO_IGNORE_def)
  show ?thesis
    by (simp add: createChangelogEntry_def r segmentPreviewChanges_example t f
        cleanMessagesFromChanges_def quoted_here_def quotable_def)
qed

text \<open>
  Claim C3. When some change has a type in neither list, classification raises the
  error for the type of such a change, and \<open>createChangelogEntry\<close> ends with that
  error; when every change has a type in one of the lists, neither raises an error of
  that kind.
\<close>

theorem unknown_change_type_raises:
  "((\<exists>c\<in>set chs. type c \<notin> set CHANGES_TO_REPORT \<and> type c \<notin> set CHANGES_TO_IGNORE)
      \<longrightarrow> (\<exists>c\<in>set chs. type c \<notin> set CHANGES_TO_REPORT \<and> type c \<notin> set CHANGES_TO_IGNORE
             \<and> changesToReport chs = Inl (UnknownChangeType (type c))
             \<and> createChangelogEntry chs previews = Inl (UnknownChangeType (type c))))
   \<and> ((\<forall>c\<in>set chs. type c \<in> set CHANGES_TO_REPORT \<or> type c \<in> set CHANGES_TO_IGNORE)
      \<longrightarrow> (\<forall>t. changesToReport chs \<noteq> Inl (UnknownChangeType t)
               \<and> createChangelogEntry chs previews \<noteq> Inl (UnknownChangeType t)))"
proof (intro conjI impI)
  assume "\<exists>c\<in>set chs. type c \<notin> set CHANGES_TO_REPORT \<and> type c \<notin> set CHANGES_TO_IGNORE"
  from classify_unknown [OF this, of "[]"]
  show "\<exists>c\<in>set chs. type c \<notin> set CHANGES_TO_REPORT \<and> type c \<notin> set CHANGES_TO_IGNORE
      \<and> changesToReport chs = Inl (UnknownChangeType (type c))
      \<and> createChangelogEntry chs previews = Inl (UnknownChangeType (type c))"
    by (auto simp: changesToReport_def createChangelogEntry_def)
next
  assume known: "\<forall>c\<in>set chs. type c \<in> set CHANGES_TO_REPORT \<or> type c \<in> set CHANGES_TO_IGNORE"
  have r: "changesToReport chs = Inr (filter (\<lambda>c. type c \<in> set CHANGES_TO_REPORT) chs)"
    using classify_known [OF known, of "[]"] by (simp add: changesToReport_def)
  show "\<forall>t. changesToReport chs \<noteq> Inl (UnknownChangeType t)
      \<and> createChangelogEntry chs previews \<noteq> Inl (UnknownChangeType t)"
    using r by (auto simp: createChangelogEntry_def split: sum.splits
        dest: segmentPreviewChanges_error)
qed

theorem unknown_change_type_raises_witness:
  "changesToReport
     [\<lparr>type = FieldAdded, path = Some ''Query.bar'', message = ''Field 'bar' was added''\<rparr>,
      \<lparr>type = OtherChangeType ''DIRECTIVE_REPEATABLE_ADDED'', path = Some ''@a'', message = ''m''\<rparr>]
     = Inl (UnknownChangeType (OtherChangeType ''DIRECTIVE_REPEATABLE_ADDED''))
   \<and> createChangelogEntry
     [\<lparr>type = FieldAdded, path = Some ''Query.bar'', message = ''Field 'bar' was added''\<rparr>,
      \<lparr>type = OtherChangeType ''DIRECTIVE_REPEATABLE_ADDED'', path = Some ''@a'', message = ''m''\<rparr>] []
     = Inl (UnknownChangeType (OtherChangeType ''DIRECTIVE_REPEATABLE_ADDED''))
   \<and> (\<forall>t. createChangelogEntry
     [\<lparr>type = FieldAdded, path = Some ''Query.bar'', message = ''Field 'bar' was added''\<rparr>,
      \<lparr>type = TypeDescriptionAdded, path = Some ''Foo'', message = ''m''\<rparr>] []
     \<noteq> Inl (UnknownChangeType t))"
  using unknown_change_type_raises
    [of "[\<lparr>type = FieldAdded, path = Some ''Query.bar'', message = ''Field 'bar' was added''\<rparr>,
      \<lparr>type = OtherChangeType ''DIRECTIVE_REPEATABLE_ADDED'', path = Some ''@a'', message = ''m''\<rparr>]" "[]"]
    unknown_change_type_raises
    [of "[\<lparr>type = FieldAdded, path = Some ''Query.bar'', message = ''Field 'bar' was added''\<rparr>,
      \<lparr>type = TypeDescriptionAdded, path = Some ''Foo'', message = ''m''\<rparr>]" "[]"]
  by (simp add: CHANGES_TO_REPORT_def CHANGES_TO_IGNORE_def)

text \<open>
  Claim C4 fails on the script: one reportable change that is attributed to a preview
  leaves the general bucket empty and the preview bucket non-empty, and the result is
  \<^verbatim>\<open>null\<close>, because \<^verbatim>\<open>previewChangesToReport.length\<close> is read on an object
  and not on an array.
\<close>

theorem preview_only_changes_give_null:
  "changesToReport [\<lparr>type = FieldAdded, path = Some ''Query.foo.bar'', message = ''Field 'bar' was added''\<rparr>]
     = Inr [\<lparr>type = FieldAdded, path = Some ''Query.foo.bar'', message = ''Field 'bar' was added''\<rparr>]
   \<and> segmentPreviewChanges
       [\<lparr>type = FieldAdded, path = Some ''Query.foo.bar'', message = ''Field 'bar' was added''\<rparr>]
       [\<lparr>title = ''FooPreview'', toggled_on = [''Query.foo'']\<rparr>]
     = Inr \<lparr>schemaChangesToReport = [],
            previewChangesToReport =
              [(''FooPreview'', \<lparr>title = Str ''FooPreview'', changes =
                 [\<lparr>type = FieldAdded, path = Some ''Query.foo.bar'',
                   message = ''Field 'bar' was added''\<rparr>]\<rparr>)]\<rparr>
   \<and> createChangelogEntry
       [\<lparr>type = FieldAdded, path = Some ''Query.foo.bar'', message = ''Field 'bar' was added''\<rparr>]
       [\<lparr>title = ''FooPreview'', toggled_on = [''Query.foo'']\<rparr>]
     = Inr None"
  by (simp add: createChangelogEntry_def changesToReport_def CHANGES_TO_REPORT_def
      segmentPreviewChanges_def pathToPreview_def toggle_paths_def set_pathToPreview_def
      get_pathToPreview_def previewTitle_of_def segment_change.simps
      findPreviewTitle_stop findPreviewTitle_step Object_prototype_keys_def length_gt_0_def
      Let_def)


end
